theory Spec2Isabelle
  imports Main "HOL-Library.Char_ord" "HOL-Library.List_Lexorder" "HOL-Library.Sublist"
begin

section \<open>Strings of the host language\<close>

text \<open>
  A source string is a sequence of code units; it is modelled as a \<open>char list\<close>, whose
  characters are the code units below 256. The default ordering of \<open>Array.prototype.sort\<close>
  on strings (code unit by code unit, a proper prefix first) is the lexicographic order on
  \<open>char list\<close>, so \<open>sort\<close> stands for \<open>[...xs].sort()\<close>.
\<close>

text \<open>The white space and line terminators that \<open>String.prototype.trim\<close> and the
  regular expression class \<open>\s\<close> recognise, among the code units below 256.\<close>

definition is_ws :: "char \<Rightarrow> bool" where
  "is_ws c = (c = CHR 0x09 \<or> c = CHR ''\<newline>'' \<or> c = CHR 0x0B \<or> c = CHR 0x0C
              \<or> c = CHR 0x0D \<or> c = CHR '' '' \<or> c = CHR 0xA0)"

definition trim :: "string \<Rightarrow> string" where
  "trim s = rev (dropWhile is_ws (rev (dropWhile is_ws s)))"

text \<open>\<open>s.split(d)\<close> for a one-character separator: never an empty array.\<close>

fun split_on :: "char \<Rightarrow> string \<Rightarrow> string list" where
  "split_on d [] = [[]]"
| "split_on d (c # cs) =
     (if c = d then [] # split_on d cs
      else (case split_on d cs of
              [] \<Rightarrow> [[c]]
            | x # xs \<Rightarrow> (c # x) # xs))"

text \<open>\<open>xs.join(sep)\<close>.\<close>

fun join :: "string \<Rightarrow> string list \<Rightarrow> string" where
  "join sep [] = []"
| "join sep [x] = x"
| "join sep (x # y # ys) = x @ sep @ join sep (y # ys)"

text \<open>\<open>String.prototype.toLowerCase\<close> on code units below 256.\<close>

definition lower_char :: "char \<Rightarrow> char" where
  "lower_char c =
     (if (CHR ''A'' \<le> c \<and> c \<le> CHR ''Z'')
         \<or> (CHR 0xC0 \<le> c \<and> c \<le> CHR 0xDE \<and> c \<noteq> CHR 0xD7)
      then char_of (of_char c + (32 :: nat)) else c)"

definition toLowerCase :: "string \<Rightarrow> string" where
  "toLowerCase s = map lower_char s"

text \<open>\<open>Array.from(new Set(xs))\<close>: a set keeps its elements in the order of their first
  insertion.\<close>

definition set_add :: "'a list \<Rightarrow> 'a \<Rightarrow> 'a list" where
  "set_add acc x = (if x \<in> set acc then acc else acc @ [x])"

definition dedupe :: "'a list \<Rightarrow> 'a list" where
  "dedupe xs = foldl set_add [] xs"

section \<open>extractInlineTags\<close>

text \<open>The character class \<open>[\w\-]\<close>.\<close>

definition is_tag_char :: "char \<Rightarrow> bool" where
  "is_tag_char c = ((CHR ''a'' \<le> c \<and> c \<le> CHR ''z'') \<or> (CHR ''A'' \<le> c \<and> c \<le> CHR ''Z'')
                    \<or> (CHR ''0'' \<le> c \<and> c \<le> CHR ''9'') \<or> c = CHR ''_'' \<or> c = CHR ''-'')"

text \<open>
  The \<open>exec\<close> loop over \<open>/#([\w\-]+)/g\<close>: the next match starts at the first \<open>#\<close> that is
  followed by a character of the class, captures the longest run of such characters, and the
  search resumes after the run. \<open>tags\<close> is the array the loop pushes to.
\<close>

function extractInlineTags_loop :: "bool \<Rightarrow> string \<Rightarrow> string list \<Rightarrow> string list" where
  "extractInlineTags_loop lowercaseTags [] tags = tags"
| "extractInlineTags_loop lowercaseTags (c # cs) tags =
     (if c = CHR ''#'' \<and> takeWhile is_tag_char cs \<noteq> []
      then (let tag = takeWhile is_tag_char cs in
            extractInlineTags_loop lowercaseTags (dropWhile is_tag_char cs)
              (if tag \<noteq> []
               then tags @ [if lowercaseTags then toLowerCase tag else tag]
               else tags))
      else extractInlineTags_loop lowercaseTags cs tags)"
  by pat_completeness auto
termination
  by (relation "measure (\<lambda>(l, s, t). length s)")
     (auto simp: less_Suc_eq_le length_dropWhile_le)

definition extractInlineTags :: "bool \<Rightarrow> string \<Rightarrow> string list" where
  "extractInlineTags lowercaseTags content =
     dedupe (extractInlineTags_loop lowercaseTags content [])"

section \<open>parseFrontmatter\<close>

record frontmatter =
  frontmatterText :: string
  bodyText :: string
  hasFrontmatter :: bool

text \<open>The text before and the text after the first occurrence of a pattern.\<close>

fun split_first :: "string \<Rightarrow> string \<Rightarrow> (string \<times> string) option" where
  "split_first pat [] = (if pat = [] then Some ([], []) else None)"
| "split_first pat (c # cs) =
     (if prefix pat (c # cs) then Some ([], drop (length pat) (c # cs))
      else (case split_first pat cs of
              None \<Rightarrow> None
            | Some (a, b) \<Rightarrow> Some (c # a, b)))"

text \<open>
  \<open>/^---\n([\s\S]*?)\n---\n([\s\S]*)$/\<close>: the document starts with the four characters
  \<open>---\n\<close>; the first group is lazy, so it ends at the first later occurrence of
  \<open>\n---\n\<close>; the second group takes the rest of the document.
\<close>

definition parseFrontmatter :: "string \<Rightarrow> frontmatter" where
  "parseFrontmatter content =
     (if prefix ''---\<newline>'' content
      then (case split_first ''\<newline>---\<newline>'' (drop 4 content) of
              Some (m1, m2) \<Rightarrow>
                \<lparr>frontmatterText = m1, bodyText = m2, hasFrontmatter = True\<rparr>
            | None \<Rightarrow>
                \<lparr>frontmatterText = [], bodyText = content, hasFrontmatter = False\<rparr>)
      else \<lparr>frontmatterText = [], bodyText = content, hasFrontmatter = False\<rparr>)"

section \<open>getExistingTags\<close>

text \<open>In the three functions below \<open>fmText\<close> is the parameter \<open>frontmatterText\<close> of the
  source, a name the record above has taken.\<close>

text \<open>The characters \<open>.\<close> does not match, among the code units below 256.\<close>

definition is_line_terminator :: "char \<Rightarrow> bool" where
  "is_line_terminator c = (c = CHR ''\<newline>'' \<or> c = CHR 0x0D)"

text \<open>The text before the last \<open>]\<close> of a string, if it has one.\<close>

definition before_last_bracket :: "string \<Rightarrow> string option" where
  "before_last_bracket s =
     (if CHR '']'' \<in> set s
      then Some (rev (drop 1 (dropWhile (\<lambda>c. c \<noteq> CHR '']'') (rev s))))
      else None)"

text \<open>
  \<open>/tags:\s*\[(.*)\]/\<close> tried at the start of a string: \<open>\s*\<close> has to take all the white
  space, since \<open>[\<close> is none; the greedy \<open>.*\<close> ends at the last \<open>]\<close> before the first line
  terminator. The result is the captured group.
\<close>

definition inline_match_here :: "string \<Rightarrow> string option" where
  "inline_match_here s =
     (if prefix ''tags:'' s
      then (case dropWhile is_ws (drop 5 s) of
              [] \<Rightarrow> None
            | c # r \<Rightarrow>
                if c = CHR ''[''
                then before_last_bracket (takeWhile (\<lambda>c. \<not> is_line_terminator c) r)
                else None)
      else None)"

text \<open>\<open>s.match(/tags:\s*\[(.*)\]/)\<close>: the leftmost start position that matches.\<close>

fun inline_match :: "string \<Rightarrow> string option" where
  "inline_match [] = inline_match_here []"
| "inline_match (c # cs) =
     (case inline_match_here (c # cs) of
        Some g \<Rightarrow> Some g
      | None \<Rightarrow> inline_match cs)"

text \<open>\<open>t.replace(/['"]/g, '')\<close>.\<close>

definition strip_quotes :: "string \<Rightarrow> string" where
  "strip_quotes t = filter (\<lambda>c. c \<noteq> CHR 0x27 \<and> c \<noteq> CHR 0x22) t"

text \<open>The \<open>for\<close> loop of \<open>getExistingTags\<close>, with its \<open>return\<close>, \<open>continue\<close> and
  \<open>break\<close>.\<close>

fun getExistingTags_loop :: "string list \<Rightarrow> bool \<Rightarrow> string list \<Rightarrow> string list" where
  "getExistingTags_loop [] inTagsSection tags = tags"
| "getExistingTags_loop (line # lines) inTagsSection tags =
     (let trimmed = trim line in
      if trimmed = ''tags:'' \<or> prefix ''tags:'' trimmed
      then (case inline_match trimmed of
              Some g \<Rightarrow>
                filter (\<lambda>t. length t > 0)
                  (map (\<lambda>t. strip_quotes (trim t)) (split_on CHR '','' g))
            | None \<Rightarrow> getExistingTags_loop lines True tags)
      else if inTagsSection
      then (if prefix ''-'' trimmed
            then (let tag = trim (drop 1 trimmed) in
                  getExistingTags_loop lines inTagsSection
                    (if tag \<noteq> [] then tags @ [tag] else tags))
            else if trimmed \<noteq> [] \<and> \<not> prefix '' '' trimmed \<and> \<not> prefix ''-'' trimmed
            then tags
            else getExistingTags_loop lines inTagsSection tags)
      else getExistingTags_loop lines inTagsSection tags)"

definition getExistingTags :: "string \<Rightarrow> string list" where
  "getExistingTags fmText =
     (if fmText = [] then []
      else getExistingTags_loop (split_on CHR ''\<newline>'' fmText) False [])"

section \<open>removeTags\<close>

fun removeTags_loop :: "string list \<Rightarrow> bool \<Rightarrow> string list \<Rightarrow> string list" where
  "removeTags_loop [] inTagsSection newLines = newLines"
| "removeTags_loop (line # lines) inTagsSection newLines =
     (let trimmed = trim line in
      if trimmed = ''tags:'' \<or> prefix ''tags:'' trimmed
      then removeTags_loop lines True newLines
      else if inTagsSection \<and> prefix ''-'' trimmed
      then removeTags_loop lines inTagsSection newLines
      else (let inTagsSection2 =
                  (if inTagsSection \<and> trimmed \<noteq> [] \<and> \<not> prefix ''-'' trimmed
                      \<and> \<not> prefix '' '' trimmed
                   then False else inTagsSection)
            in removeTags_loop lines inTagsSection2
                 (if \<not> inTagsSection2 then newLines @ [line] else newLines)))"

definition removeTags :: "string \<Rightarrow> string" where
  "removeTags fmText =
     join ''\<newline>'' (removeTags_loop (split_on CHR ''\<newline>'' fmText) False [])"

section \<open>buildFrontmatterWithTags\<close>

definition tag_item :: "string \<Rightarrow> string" where
  "tag_item tag = ''  - '' @ tag"

text \<open>The loop returns \<open>newLines\<close> and \<open>tagsInserted\<close>.\<close>

fun buildFrontmatterWithTags_loop ::
  "string list \<Rightarrow> string list \<Rightarrow> bool \<Rightarrow> bool \<Rightarrow> string list \<Rightarrow> string list \<times> bool" where
  "buildFrontmatterWithTags_loop tags [] inTagsSection tagsInserted newLines =
     (newLines, tagsInserted)"
| "buildFrontmatterWithTags_loop tags (line # lines) inTagsSection tagsInserted newLines =
     (let trimmed = trim line in
      if trimmed = ''tags:'' \<or> prefix ''tags:'' trimmed
      then buildFrontmatterWithTags_loop tags lines True True
             (newLines @ [''tags:''] @ map tag_item tags)
      else if inTagsSection \<and> prefix ''-'' trimmed
      then buildFrontmatterWithTags_loop tags lines inTagsSection tagsInserted newLines
      else (let inTagsSection2 =
                  (if inTagsSection \<and> trimmed \<noteq> [] \<and> \<not> prefix ''-'' trimmed
                      \<and> \<not> prefix '' '' trimmed
                   then False else inTagsSection)
            in buildFrontmatterWithTags_loop tags lines inTagsSection2 tagsInserted
                 (if \<not> inTagsSection2 then newLines @ [line] else newLines)))"

definition buildFrontmatterWithTags :: "string \<Rightarrow> string list \<Rightarrow> bool \<Rightarrow> string" where
  "buildFrontmatterWithTags fmText tags hadFrontmatter =
     (if \<not> hadFrontmatter \<or> fmText = []
      then ''tags:\<newline>'' @ join ''\<newline>'' (map tag_item tags) @ ''\<newline>''
      else (case buildFrontmatterWithTags_loop tags
                   (split_on CHR ''\<newline>'' fmText) False False [] of
              (newLines, tagsInserted) \<Rightarrow>
                if \<not> tagsInserted
                then join ''\<newline>'' ((''tags:'' # map tag_item tags) @ newLines) @ ''\<newline>''
                else join ''\<newline>'' newLines @ ''\<newline>''))"

section \<open>arraysEqual and syncTagsToFrontmatter\<close>

text \<open>The index loop of \<open>arraysEqual\<close>, entered once the lengths agree.\<close>

fun arraysEqual_loop :: "string list \<Rightarrow> string list \<Rightarrow> bool" where
  "arraysEqual_loop (x # xs) (y # ys) = (if x \<noteq> y then False else arraysEqual_loop xs ys)"
| "arraysEqual_loop xs ys = True"

definition arraysEqual :: "string list \<Rightarrow> string list \<Rightarrow> bool" where
  "arraysEqual a b = (if length a \<noteq> length b then False else arraysEqual_loop a b)"

text \<open>
  The engine of \<open>syncTagsToFrontmatter\<close>, from reading the document to the write: the
  result is the string handed to \<open>vault.modify\<close>, or \<open>None\<close> where the method returns
  without writing (NO_CHANGE). The flag is \<open>settings.lowercaseTags\<close>.
\<close>

definition syncTagsToFrontmatter :: "bool \<Rightarrow> string \<Rightarrow> string option" where
  "syncTagsToFrontmatter lowercaseTags content =
     (let inlineTags = extractInlineTags lowercaseTags content;
          p = parseFrontmatter content;
          existingTags = getExistingTags (frontmatterText p);
          sortedInlineTags = sort inlineTags;
          sortedExisting = sort existingTags
      in if arraysEqual sortedExisting sortedInlineTags then None
         else if length inlineTags = 0
         then (if hasFrontmatter p
               then (let newFrontmatterText = removeTags (frontmatterText p) in
                     if trim newFrontmatterText \<noteq> []
                     then Some (''---\<newline>'' @ newFrontmatterText @ ''---\<newline>'' @ bodyText p)
                     else Some (bodyText p))
               else None)
         else (let newFrontmatterText =
                     buildFrontmatterWithTags (frontmatterText p) sortedInlineTags
                       (hasFrontmatter p)
               in Some (if hasFrontmatter p
                        then ''---\<newline>'' @ newFrontmatterText @ ''---\<newline>'' @ bodyText p
                        else ''---\<newline>'' @ newFrontmatterText @ ''---\<newline>'' @ content)))"

section \<open>Notions of the specification\<close>

text \<open>
  The definitions of this section follow the words of the specification; the theorems
  compare them with the functions above.
\<close>

text \<open>A document written as a delimiter line, the given lines, a delimiter line and the
  body.\<close>

definition block_document :: "string list \<Rightarrow> string \<Rightarrow> string" where
  "block_document ls body =
     ''---\<newline>'' @ concat (map (\<lambda>l. l @ ''\<newline>'') ls) @ ''---\<newline>'' @ body"

definition is_line :: "string \<Rightarrow> bool" where
  "is_line l = (CHR ''\<newline>'' \<notin> set l)"

text \<open>The kinds of lines of a metadata block: a blank line, the tag-key line, a list item,
  and a line that starts with white space.\<close>

definition blank :: "string \<Rightarrow> bool" where
  "blank l = (trim l = [])"

definition tag_key :: "string \<Rightarrow> bool" where
  "tag_key l = (trim l = ''tags:'' \<or> prefix ''tags:'' (trim l))"

definition list_item :: "string \<Rightarrow> bool" where
  "list_item l = prefix ''-'' (trim l)"

definition indented :: "string \<Rightarrow> bool" where
  "indented l = (case l of [] \<Rightarrow> False | c # r \<Rightarrow> is_ws c)"

text \<open>
  Remove, with blank lines counted among the lines of the tag section: the tag-key line is
  dropped together with every following line of the section, up to the first line that is
  not blank, not indented and not a list item; that line is kept, and so is every line
  outside a section, in order.
\<close>

definition section_line :: "string \<Rightarrow> bool" where
  "section_line l = (tag_key l \<or> list_item l \<or> blank l \<or> indented l)"

function remove_spec :: "string list \<Rightarrow> string list" where
  "remove_spec [] = []"
| "remove_spec (l # ls) =
     (if tag_key l then remove_spec (dropWhile section_line ls) else l # remove_spec ls)"
  by pat_completeness auto
termination
  by (relation "measure length") (auto simp: less_Suc_eq_le length_dropWhile_le)

text \<open>No line other than a blank line, a list item or a tag-key line is indented.\<close>

definition margin_fields :: "string list \<Rightarrow> bool" where
  "margin_fields ls = list_all (\<lambda>l. tag_key l \<or> list_item l \<or> blank l \<or> \<not> indented l) ls"

text \<open>A metadata block that holds a tag list and no other field: after leading blank
  lines comes the tag-key line, and every later line is a list item, a blank line or the
  tag-key line again.\<close>

definition only_tag_list :: "string list \<Rightarrow> bool" where
  "only_tag_list ls =
     (case dropWhile blank ls of
        [] \<Rightarrow> False
      | l # rest \<Rightarrow> tag_key l \<and> list_all (\<lambda>l. tag_key l \<or> list_item l \<or> blank l) rest)"

text \<open>A tag as the extractor captures it: one or more characters of the class.\<close>

definition good_tag :: "string \<Rightarrow> bool" where
  "good_tag t = (t \<noteq> [] \<and> list_all is_tag_char t)"

section \<open>Auxiliary facts\<close>

subsection \<open>Arrays and sets\<close>

lemma arraysEqual_loop_iff: "length a = length b \<Longrightarrow> arraysEqual_loop a b \<longleftrightarrow> a = b"
  by (induction a b rule: list_induct2) auto

lemma arraysEqual_iff: "arraysEqual a b \<longleftrightarrow> a = b"
  using arraysEqual_loop_iff [of a b] by (auto simp: arraysEqual_def)

lemma remdups_drop_dup: "x \<in> set ys \<Longrightarrow> remdups (xs @ x # ys) = remdups (xs @ ys)"
  by (induction xs) auto

lemma foldl_set_add: "distinct acc \<Longrightarrow> foldl set_add acc xs = rev (remdups (rev xs @ rev acc))"
proof (induction xs arbitrary: acc)
  case Nil
  then show ?case by (simp add: distinct_remdups_id)
next
  case (Cons x xs)
  show ?case
  proof (cases "x \<in> set acc")
    case True
    then show ?thesis
      using Cons.prems Cons.IH [of acc] remdups_drop_dup [of x "rev acc" "rev xs"]
      by (simp add: set_add_def)
  next
    case False
    then show ?thesis
      using Cons.prems Cons.IH [of "acc @ [x]"] by (simp add: set_add_def)
  qed
qed


lemma dedupe_conv: "dedupe xs = rev (remdups (rev xs))"
  using foldl_set_add [of "[]" xs] by (simp add: dedupe_def)

lemma set_dedupe: "set (dedupe xs) = set xs"
  by (simp add: dedupe_conv)

lemma distinct_dedupe: "distinct (dedupe xs)"
  by (simp add: dedupe_conv)

lemma dedupe_map_dedupe: "dedupe (map f (dedupe xs)) = dedupe (map f xs)"
  by (simp add: dedupe_conv rev_map remdups_map_remdups)

lemma dedupe_Nil_iff: "dedupe xs = [] \<longleftrightarrow> xs = []"
  by (simp add: dedupe_conv)

lemma dedupe_distinct_id: "distinct xs \<Longrightarrow> dedupe xs = xs"
  by (simp add: dedupe_conv distinct_remdups_id)

lemma extract_loop_acc:
  "extractInlineTags_loop lc s acc = acc @ extractInlineTags_loop lc s []"
proof (induction "length s" arbitrary: s acc rule: less_induct)
  case less
  show ?case
  proof (cases s)
    case Nil
    then show ?thesis by simp
  next
    case (Cons c cs)
    let ?t = "takeWhile is_tag_char cs" and ?d = "dropWhile is_tag_char cs"
    define v where "v = (if lc then toLowerCase ?t else ?t)"
    have d: "length ?d < length s"
      using Cons by (simp add: less_Suc_eq_le length_dropWhile_le)
    have c: "length cs < length s"
      using Cons by simp
    show ?thesis
    proof (cases "c = CHR ''#'' \<and> ?t \<noteq> []")
      case True
      have "extractInlineTags_loop lc s acc = extractInlineTags_loop lc ?d (acc @ [v])"
        using True Cons by (simp add: v_def)
      also have "\<dots> = (acc @ [v]) @ extractInlineTags_loop lc ?d []"
        by (rule less(1) [OF d])
      also have "\<dots> = acc @ extractInlineTags_loop lc ?d [v]"
        using less(1) [OF d, of "[v]"] by simp
      also have "extractInlineTags_loop lc ?d [v] = extractInlineTags_loop lc s []"
        using True Cons by (simp add: v_def)
      finally show ?thesis .
    next
      case False
      have "extractInlineTags_loop lc s acc = extractInlineTags_loop lc cs acc"
        using False Cons by auto
      also have "\<dots> = acc @ extractInlineTags_loop lc cs []"
        by (rule less(1) [OF c])
      also have "extractInlineTags_loop lc cs [] = extractInlineTags_loop lc s []"
        using False Cons by auto
      finally show ?thesis .
    qed
  qed
qed

lemma extract_loop_Cons:
  "extractInlineTags_loop lc (c # cs) [] =
     (if c = CHR ''#'' \<and> takeWhile is_tag_char cs \<noteq> []
      then (if lc then toLowerCase (takeWhile is_tag_char cs) else takeWhile is_tag_char cs)
             # extractInlineTags_loop lc (dropWhile is_tag_char cs) []
      else extractInlineTags_loop lc cs [])"
  using extract_loop_acc [of lc "dropWhile is_tag_char cs" "[x]" for x] by simp

lemma extract_loop_lower:
  "extractInlineTags_loop True s [] = map toLowerCase (extractInlineTags_loop False s [])"
proof (induction "length s" arbitrary: s rule: less_induct)
  case less
  show ?case
  proof (cases s)
    case Nil
    then show ?thesis by simp
  next
    case (Cons c cs)
    have d: "length (dropWhile is_tag_char cs) < length s"
      using Cons by (simp add: less_Suc_eq_le length_dropWhile_le)
    have c: "length cs < length s"
      using Cons by simp
    show ?thesis
      using less(1) [OF d] less(1) [OF c] Cons by (simp only: extract_loop_Cons) simp
  qed
qed

subsection \<open>The parser and the orchestrator\<close>

lemma getExistingTags_Nil: "getExistingTags [] = []"
  by (simp add: getExistingTags_def)

lemma parse_no_frontmatter:
  "\<not> hasFrontmatter (parseFrontmatter d) \<Longrightarrow>
     frontmatterText (parseFrontmatter d) = [] \<and> bodyText (parseFrontmatter d) = d"
  by (auto simp: parseFrontmatter_def split: option.splits if_splits)

lemma sync_None_iff:
  "syncTagsToFrontmatter lc d = None \<longleftrightarrow>
     sort (getExistingTags (frontmatterText (parseFrontmatter d)))
       = sort (extractInlineTags lc d)"
proof (cases "hasFrontmatter (parseFrontmatter d)")
  case True
  then show ?thesis
    by (simp add: syncTagsToFrontmatter_def Let_def arraysEqual_iff)
next
  case False
  then have "getExistingTags (frontmatterText (parseFrontmatter d)) = []"
    using parse_no_frontmatter [of d] by (simp add: getExistingTags_Nil)
  then show ?thesis
    by (auto simp: syncTagsToFrontmatter_def Let_def arraysEqual_iff)
qed

subsection \<open>Splitting and joining\<close>

lemma split_on_not_Nil: "split_on d s \<noteq> []"
  by (induction s) (auto split: list.splits)

lemma join_split_on: "join [d] (split_on d s) = s"
proof (induction s)
  case Nil
  then show ?case by simp
next
  case (Cons c cs)
  obtain x xs where x: "split_on d cs = x # xs"
    using split_on_not_Nil [of d cs] by (cases "split_on d cs") auto
  show ?case
  proof (cases "c = d")
    case True
    then show ?thesis using Cons x by simp
  next
    case False
    then show ?thesis using Cons x by (cases xs) auto
  qed
qed

lemma split_on_lines: "list_all (\<lambda>l. d \<notin> set l) (split_on d s)"
  by (induction s) (auto split: list.splits)

lemma join_lines_concat:
  "ls \<noteq> [] \<Longrightarrow> concat (map (\<lambda>l. l @ sep) ls) = join sep ls @ sep"
  by (induction sep ls rule: join.induct) auto

lemma split_first_sound:
  "split_first pat s = Some (a, b) \<Longrightarrow> s = a @ pat @ b"
proof (induction s arbitrary: a b)
  case Nil
  then show ?case by (auto split: if_splits)
next
  case (Cons c cs)
  show ?case
  proof (cases "prefix pat (c # cs)")
    case True
    then show ?thesis using Cons.prems by (auto simp: prefix_def)
  next
    case False
    then show ?thesis
      using Cons by (auto split: option.splits)
  qed
qed

lemma split_first_complete:
  "s = a' @ pat @ b' \<Longrightarrow> \<exists>a b. split_first pat s = Some (a, b) \<and> length a \<le> length a'"
proof (induction s arbitrary: a')
  case Nil
  then show ?case by simp
next
  case (Cons c cs)
  show ?case
  proof (cases "prefix pat (c # cs)")
    case True
    then show ?thesis by simp
  next
    case False
    then have "a' \<noteq> []" using Cons.prems by (auto simp: prefix_def)
    then obtain a'' where a': "a' = c # a''" and cs: "cs = a'' @ pat @ b'"
      using Cons.prems by (cases a') auto
    from Cons.IH [OF cs] obtain a b where
      "split_first pat cs = Some (a, b)" "length a \<le> length a''" by blast
    then show ?thesis using False a' by simp
  qed
qed

subsection \<open>The shape of a parsed document\<close>

lemma parse_has_frontmatter:
  assumes "hasFrontmatter (parseFrontmatter d)"
  shows "d = ''---\<newline>'' @ frontmatterText (parseFrontmatter d) @ ''\<newline>---\<newline>''
               @ bodyText (parseFrontmatter d)"
proof -
  from assms obtain m1 m2 where
    p: "prefix ''---\<newline>'' d" and
    s: "split_first ''\<newline>---\<newline>'' (drop 4 d) = Some (m1, m2)"
    by (auto simp: parseFrontmatter_def split: if_splits option.splits)
  from p have d: "d = ''---\<newline>'' @ drop 4 d" by (auto simp: prefix_def)
  from s have r: "parseFrontmatter d = \<lparr>frontmatterText = m1, bodyText = m2, hasFrontmatter = True\<rparr>"
    using p by (simp add: parseFrontmatter_def)
  from split_first_sound [OF s] d r show ?thesis by simp
qed

lemma parse_pattern:
  assumes "d = ''---\<newline>'' @ m @ ''\<newline>---\<newline>'' @ b"
  shows "hasFrontmatter (parseFrontmatter d)
         \<and> length (frontmatterText (parseFrontmatter d)) \<le> length m"
proof -
  have p: "prefix ''---\<newline>'' d" using assms by simp
  have "drop 4 d = m @ ''\<newline>---\<newline>'' @ b" using assms by simp
  from split_first_complete [OF this] obtain m1 m2 where
    "split_first ''\<newline>---\<newline>'' (drop 4 d) = Some (m1, m2)" "length m1 \<le> length m"
    by blast
  then show ?thesis using p by (simp add: parseFrontmatter_def)
qed

lemma block_document_pattern:
  "ls \<noteq> [] \<Longrightarrow>
     block_document ls body = ''---\<newline>'' @ join ''\<newline>'' ls @ ''\<newline>---\<newline>'' @ body"
  using join_lines_concat [of ls "''\<newline>''"] by (simp add: block_document_def)

subsection \<open>Trimmed lines and the remover\<close>

lemma rev_dropWhile_rev_decomp:
  "t = rev (dropWhile P (rev t)) @ rev (takeWhile P (rev t))"
  by (metis rev_append rev_rev_ident takeWhile_dropWhile_id)

lemma trim_decomp: "dropWhile is_ws s = trim s @ rev (takeWhile is_ws (rev (dropWhile is_ws s)))"
  unfolding trim_def by (rule rev_dropWhile_rev_decomp)

lemma trim_hd_not_ws: "trim s = c # r \<Longrightarrow> \<not> is_ws c"
proof -
  assume t: "trim s = c # r"
  then obtain u where "dropWhile is_ws s = c # u"
    using trim_decomp [of s] by simp
  then show "\<not> is_ws c" by (simp add: dropWhile_eq_Cons_conv)
qed

lemma trim_no_space: "\<not> prefix '' '' (trim s)"
proof
  assume "prefix '' '' (trim s)"
  then obtain r where "trim s = CHR '' '' # r" by (auto simp: prefix_def)
  from trim_hd_not_ws [OF this] show False by (simp add: is_ws_def)
qed

lemma removeTags_loop_acc:
  "removeTags_loop ls b acc = acc @ removeTags_loop ls b []"
proof (induction ls arbitrary: b acc)
  case Nil
  then show ?case by simp
next
  case (Cons l ls)
  show ?case
    using Cons.IH [of True acc] Cons.IH [of False acc] Cons.IH [of False "acc @ [l]"]
      Cons.IH [of False "[l]"]
    by (cases b) (simp_all add: Let_def trim_no_space)
qed

lemma removeTags_loop_spec:
  "margin_fields ls \<Longrightarrow>
     removeTags_loop ls False [] = remove_spec ls
     \<and> removeTags_loop ls True [] = remove_spec (dropWhile section_line ls)"
proof (induction ls)
  case Nil
  then show ?case by simp
next
  case (Cons l ls)
  then have ih: "removeTags_loop ls False [] = remove_spec ls"
      "removeTags_loop ls True [] = remove_spec (dropWhile section_line ls)"
    and m: "tag_key l \<or> list_item l \<or> blank l \<or> \<not> indented l"
    by (simp_all add: margin_fields_def)
  have push: "removeTags_loop ls False [l] = l # remove_spec ls"
    using removeTags_loop_acc [of ls False "[l]"] ih by simp
  show ?case
  proof (cases "tag_key l")
    case True
    then have "section_line l" by (simp add: section_line_def)
    then show ?thesis using True ih by (simp add: tag_key_def)
  next
    case nk: False
    show ?thesis
    proof (cases "list_item l \<or> blank l")
      case True
      then have "section_line l" by (auto simp: section_line_def)
      then show ?thesis
        using True nk ih push
        by (auto simp: tag_key_def list_item_def blank_def Let_def)
    next
      case False
      then have "\<not> section_line l" using nk m by (simp add: section_line_def)
      then show ?thesis
        using nk False ih push
        by (auto simp: tag_key_def list_item_def blank_def Let_def trim_no_space)
    qed
  qed
qed

lemma remove_spec_subseq: "subseq (remove_spec ls) ls"
proof (induction ls rule: remove_spec.induct)
  case 1
  then show ?case by simp
next
  case (2 l ls)
  show ?case
  proof (cases "tag_key l")
    case True
    have "subseq (dropWhile section_line ls) ls"
      using suffix_dropWhile by (rule suffix_imp_subseq)
    then have "subseq (remove_spec (dropWhile section_line ls)) ls"
      using "2.IH"(1) [OF True] subseq_order.trans by blast
    then show ?thesis using True subseq_drop_many [of _ ls "[l]"] by simp
  next
    case False
    then show ?thesis using "2.IH"(2) by simp
  qed
qed

subsection \<open>Blocks that hold only a tag list\<close>

lemma blank_iff_all_ws: "blank s \<longleftrightarrow> list_all is_ws s"
proof
  assume "blank s"
  then have d: "dropWhile is_ws s = rev (takeWhile is_ws (rev (dropWhile is_ws s)))"
    using trim_decomp [of s] by (simp add: blank_def)
  have "dropWhile is_ws s = []"
  proof (cases "dropWhile is_ws s")
    case Nil
    then show ?thesis .
  next
    case (Cons c u)
    then have "\<not> is_ws c" by (simp add: dropWhile_eq_Cons_conv)
    moreover have "c \<in> set (takeWhile is_ws (rev (dropWhile is_ws s)))"
      using d Cons by (metis list.set_intros(1) set_rev)
    ultimately show ?thesis using set_takeWhileD by fastforce
  qed
  then show "list_all is_ws s" by (simp add: list_all_iff)
next
  assume "list_all is_ws s"
  then have e: "dropWhile is_ws s = []" by (simp add: list_all_iff)
  show "blank s" unfolding blank_def trim_def e by simp
qed

lemma join_blank_lines: "list_all blank ls \<Longrightarrow> blank (join ''\<newline>'' ls)"
proof (induction "''\<newline>''" ls rule: join.induct)
  case 1
  then show ?case by (simp add: blank_iff_all_ws)
next
  case (2 x)
  then show ?case by simp
next
  case (3 x y ys)
  then show ?case by (simp add: blank_iff_all_ws is_ws_def)
qed

lemma blank_not_tag_key: "blank l \<Longrightarrow> \<not> tag_key l"
  by (auto simp: blank_def tag_key_def)

lemma removeTags_loop_in_section:
  "list_all (\<lambda>l. tag_key l \<or> list_item l \<or> blank l) ls \<Longrightarrow> removeTags_loop ls True [] = []"
proof (induction ls)
  case Nil
  then show ?case by simp
next
  case (Cons l ls)
  then show ?case
    by (auto simp: Let_def tag_key_def list_item_def blank_def)
qed

lemma removeTags_loop_blank_prefix:
  "removeTags_loop ls False [] = takeWhile blank ls @ removeTags_loop (dropWhile blank ls) False []"
proof (induction ls)
  case Nil
  then show ?case by simp
next
  case (Cons l ls)
  show ?case
  proof (cases "blank l")
    case True
    then have "removeTags_loop (l # ls) False [] = removeTags_loop ls False [l]"
      using blank_not_tag_key [OF True] by (simp add: Let_def tag_key_def)
    then show ?thesis
      using True Cons removeTags_loop_acc [of ls False "[l]"] by simp
  next
    case False
    then show ?thesis by simp
  qed
qed

lemma removeTags_only_tag_list:
  assumes "only_tag_list (split_on CHR ''\<newline>'' fm)"
  shows "trim (removeTags fm) = []"
proof -
  let ?ls = "split_on CHR ''\<newline>'' fm"
  from assms obtain l rest where
    d: "dropWhile blank ?ls = l # rest" and k: "tag_key l"
    and r: "list_all (\<lambda>l. tag_key l \<or> list_item l \<or> blank l) rest"
    by (auto simp: only_tag_list_def split: list.splits)
  have "removeTags_loop (l # rest) False [] = removeTags_loop rest True []"
    using k by (simp add: tag_key_def)
  then have "removeTags_loop (l # rest) False [] = []"
    using removeTags_loop_in_section [OF r] by simp
  then have "removeTags_loop ?ls False [] = takeWhile blank ?ls"
    using removeTags_loop_blank_prefix [of ?ls] d by simp
  moreover have "list_all blank (takeWhile blank ?ls)"
    by (simp add: list_all_iff) (meson set_takeWhileD)
  ultimately have "blank (removeTags fm)"
    using join_blank_lines by (simp add: removeTags_def)
  then show ?thesis by (simp add: blank_def)
qed

lemma sort_eq_Nil_iff: "sort xs = [] \<longleftrightarrow> xs = []"
  using length_sort [of "\<lambda>x. x" xs] by (metis length_0_conv)

subsection \<open>Extraction over a whole document, and the rebuilt tag list\<close>

lemma takeWhile_append_stop: "\<not> P x \<Longrightarrow> takeWhile P (cs @ x # b) = takeWhile P cs"
  by (induction cs) auto

lemma dropWhile_append_stop: "\<not> P x \<Longrightarrow> dropWhile P (cs @ x # b) = dropWhile P cs @ x # b"
  by (induction cs) auto

lemma extract_loop_append:
  assumes x: "\<not> is_tag_char x"
  shows "extractInlineTags_loop lc (a @ x # b) []
           = extractInlineTags_loop lc a [] @ extractInlineTags_loop lc (x # b) []"
proof (induction "length a" arbitrary: a rule: less_induct)
  case less
  show ?case
  proof (cases a)
    case Nil
    then show ?thesis by simp
  next
    case (Cons c cs)
    have d: "length (dropWhile is_tag_char cs) < length a"
      using Cons by (simp add: less_Suc_eq_le length_dropWhile_le)
    have c: "length cs < length a"
      using Cons by simp
    have "extractInlineTags_loop lc ((c # cs) @ x # b) []
            = extractInlineTags_loop lc (c # cs) [] @ extractInlineTags_loop lc (x # b) []"
      using less(1) [OF d] less(1) [OF c] x
      by (simp add: extract_loop_Cons takeWhile_append_stop dropWhile_append_stop
            del: extractInlineTags_loop.simps)
    then show ?thesis using Cons by simp
  qed
qed

lemma extract_loop_no_hash: "CHR ''#'' \<notin> set s \<Longrightarrow> extractInlineTags_loop lc s acc = acc"
  by (induction s) auto

lemma extract_loop_newline:
  "extractInlineTags_loop lc (CHR ''\<newline>'' # s) [] = extractInlineTags_loop lc s []"
  by simp

lemma not_tag_char_newline: "\<not> is_tag_char CHR ''\<newline>''"
  by (simp add: is_tag_char_def)

lemma extract_loop_document:
  "extractInlineTags_loop lc (''---\<newline>'' @ fm @ ''\<newline>---\<newline>'' @ body) []
     = extractInlineTags_loop lc fm [] @ extractInlineTags_loop lc body []"
proof -
  have "extractInlineTags_loop lc (''---\<newline>'' @ fm @ ''\<newline>---\<newline>'' @ body) []
          = extractInlineTags_loop lc (fm @ CHR ''\<newline>'' # (''---\<newline>'' @ body)) []"
    by simp
  also have "\<dots> = extractInlineTags_loop lc fm []
                     @ extractInlineTags_loop lc (CHR ''\<newline>'' # (''---\<newline>'' @ body)) []"
    by (rule extract_loop_append [OF not_tag_char_newline])
  also have "extractInlineTags_loop lc (CHR ''\<newline>'' # (''---\<newline>'' @ body)) []
               = extractInlineTags_loop lc body []"
    by simp
  finally show ?thesis .
qed

lemma buildFrontmatterWithTags_loop_inserted:
  assumes "buildFrontmatterWithTags_loop tags ls b ins acc = (L, ins2)"
    and "ins \<longrightarrow> (\<exists>xs ys. acc = xs @ ''tags:'' # map tag_item tags @ ys)"
    and "ins2"
  shows "\<exists>xs ys. L = xs @ ''tags:'' # map tag_item tags @ ys"
  using assms
proof (induction ls arbitrary: b ins acc)
  case Nil
  then show ?case by simp
next
  case (Cons l ls)
  show ?case
  proof (cases "trim l = ''tags:'' \<or> prefix ''tags:'' (trim l)")
    case True
    then have "buildFrontmatterWithTags_loop tags ls True True
                 (acc @ [''tags:''] @ map tag_item tags) = (L, ins2)"
      using Cons.prems(1) by simp
    moreover have "\<exists>xs ys. acc @ [''tags:''] @ map tag_item tags
                     = xs @ ''tags:'' # map tag_item tags @ ys"
      by (rule exI [of _ acc], rule exI [of _ "[]"]) simp
    ultimately show ?thesis using Cons.IH Cons.prems(3) by blast
  next
    case False
    have keep: "\<exists>xs ys. acc @ [l] = xs @ ''tags:'' # map tag_item tags @ ys" if ins
    proof -
      from that Cons.prems(2) obtain xs ys where "acc = xs @ ''tags:'' # map tag_item tags @ ys"
        by blast
      then have "acc @ [l] = xs @ ''tags:'' # map tag_item tags @ (ys @ [l])" by simp
      then show ?thesis by blast
    qed
    from False Cons.prems(1) obtain b2 acc2 where
      step: "buildFrontmatterWithTags_loop tags ls b2 ins acc2 = (L, ins2)"
      and acc2: "acc2 = acc \<or> acc2 = acc @ [l]"
      by (auto simp: Let_def split: if_splits)
    have "ins \<longrightarrow> (\<exists>xs ys. acc2 = xs @ ''tags:'' # map tag_item tags @ ys)"
      using acc2 keep Cons.prems(2) by blast
    from Cons.IH [OF step this Cons.prems(3)] show ?thesis .
  qed
qed

lemma join_item_sublist:
  assumes "F = xs @ k # map f tags @ ys" and "t \<in> set tags"
  shows "sublist (sep @ f t @ sep) (join sep F @ sep)"
proof -
  from assms(2) obtain t1 t2 where tags: "tags = t1 @ t # t2"
    by (meson split_list)
  define A where "A = butlast (xs @ k # map f t1)"
  define p where "p = last (xs @ k # map f t1)"
  have "xs @ k # map f t1 \<noteq> []"
    by simp
  then have "xs @ k # map f t1 = A @ [p]"
    unfolding A_def p_def by (rule append_butlast_last_id [symmetric])
  then have F: "F = A @ p # f t # (map f t2 @ ys)"
    using assms(1) tags by simp
  have "join sep F @ sep = concat (map (\<lambda>l. l @ sep) F)"
    using F join_lines_concat [of F sep] by simp
  also have "\<dots> = (concat (map (\<lambda>l. l @ sep) A) @ p) @ (sep @ f t @ sep)
                      @ concat (map (\<lambda>l. l @ sep) (map f t2 @ ys))"
    by (simp add: F)
  finally show ?thesis unfolding sublist_def by blast
qed

lemma buildFrontmatterWithTags_item:
  assumes "t \<in> set tags" and "fm \<noteq> []"
  shows "sublist (''\<newline>'' @ tag_item t @ ''\<newline>'') (buildFrontmatterWithTags fm tags True)"
proof -
  obtain L ins where l: "buildFrontmatterWithTags_loop tags (split_on CHR ''\<newline>'' fm) False False []
                           = (L, ins)"
    by (cases "buildFrontmatterWithTags_loop tags (split_on CHR ''\<newline>'' fm) False False []")
  show ?thesis
  proof (cases ins)
    case True
    from buildFrontmatterWithTags_loop_inserted [OF l _ True]
    obtain xs ys where "L = xs @ ''tags:'' # map tag_item tags @ ys" by auto
    from join_item_sublist [OF this assms(1), of "''\<newline>''"] show ?thesis
      using l True assms(2) by (simp add: buildFrontmatterWithTags_def)
  next
    case False
    have "(''tags:'' # map tag_item tags) @ L = [] @ ''tags:'' # map tag_item tags @ L"
      by simp
    from join_item_sublist [OF this assms(1), of "''\<newline>''"] show ?thesis
      using l False assms(2) by (simp add: buildFrontmatterWithTags_def)
  qed
qed

lemma sublist_in_middle: "sublist x m \<Longrightarrow> sublist x (a @ m @ b)"
  unfolding sublist_def by (metis append.assoc)

subsection \<open>Extracted tags\<close>

lemma is_tag_char_lower: "is_tag_char c \<Longrightarrow> is_tag_char (lower_char c)"
proof -
  assume c: "is_tag_char c"
  show ?thesis
  proof (cases "CHR ''A'' \<le> c \<and> c \<le> CHR ''Z''")
    case True
    then have "65 \<le> (of_char c :: nat)" "(of_char c :: nat) \<le> 90"
      by (simp_all add: less_eq_char_def)
    then have "CHR ''a'' \<le> char_of (of_char c + (32 :: nat))
               \<and> char_of (of_char c + (32 :: nat)) \<le> CHR ''z''"
      by (simp add: less_eq_char_def)
    then show ?thesis using True by (simp add: is_tag_char_def lower_char_def)
  next
    case False
    then have "lower_char c = c"
      using c by (auto simp: is_tag_char_def lower_char_def less_eq_char_def)
    then show ?thesis using c by simp
  qed
qed

lemma is_tag_char_plain:
  "is_tag_char c \<Longrightarrow> \<not> is_ws c \<and> c \<noteq> CHR ''\<newline>'' \<and> c \<noteq> CHR ''#''"
  by (auto simp: is_tag_char_def is_ws_def)

lemma good_tag_lower: "good_tag t \<Longrightarrow> good_tag (toLowerCase t)"
  by (simp add: good_tag_def toLowerCase_def list_all_iff is_tag_char_lower)

lemma takeWhile_good_tag: "takeWhile is_tag_char cs \<noteq> [] \<Longrightarrow> good_tag (takeWhile is_tag_char cs)"
  by (auto simp: good_tag_def list_all_iff dest: set_takeWhileD)

lemma extract_loop_good: "list_all good_tag (extractInlineTags_loop lc s [])"
proof (induction "length s" arbitrary: s rule: less_induct)
  case less
  show ?case
  proof (cases s)
    case Nil
    then show ?thesis by simp
  next
    case (Cons c cs)
    have d: "length (dropWhile is_tag_char cs) < length s"
      using Cons by (simp add: less_Suc_eq_le length_dropWhile_le)
    have c: "length cs < length s"
      using Cons by simp
    show ?thesis
      using less(1) [OF d] less(1) [OF c] Cons takeWhile_good_tag [of cs] good_tag_lower
      by (simp add: extract_loop_Cons del: extractInlineTags_loop.simps)
  qed
qed

lemma extractInlineTags_good: "list_all good_tag (extractInlineTags lc s)"
  using extract_loop_good [of lc s]
  by (simp add: extractInlineTags_def list_all_iff set_dedupe)


subsection \<open>Reading back a written tag list\<close>

lemma split_on_line: "d \<notin> set l \<Longrightarrow> split_on d l = [l]"
  by (induction l) auto

lemma split_on_append_sep:
  "d \<notin> set l \<Longrightarrow> split_on d (l @ d # r) = l # split_on d r"
  by (induction l) auto

lemma split_on_join:
  "ls \<noteq> [] \<Longrightarrow> list_all is_line ls \<Longrightarrow>
     split_on CHR ''\<newline>'' (join ''\<newline>'' ls) = ls"
proof (induction "''\<newline>''" ls rule: join.induct)
  case 1
  then show ?case by simp
next
  case (2 x)
  then show ?case by (simp add: is_line_def split_on_line)
next
  case (3 x y ys)
  then show ?case by (simp add: is_line_def split_on_append_sep)
qed

lemma split_first_skip_line:
  "is_line l \<Longrightarrow>
     split_first ''\<newline>---\<newline>'' (l @ s)
       = map_option (\<lambda>(a, b). (l @ a, b)) (split_first ''\<newline>---\<newline>'' s)"
proof (induction l)
  case Nil
  then show ?case by (simp add: option.map_ident)
next
  case (Cons c l)
  then show ?case
    by (auto simp: is_line_def split: option.splits)
qed

lemma prefix_delimiter_line:
  "is_line m \<Longrightarrow> prefix ''---\<newline>'' (m @ CHR ''\<newline>'' # y) \<longleftrightarrow> m = ''---''"
  by (cases m; cases "tl m"; cases "tl (tl m)"; cases "tl (tl (tl m))")
     (auto simp: is_line_def)

lemma split_first_at_line_break:
  assumes "is_line m" and "m \<noteq> ''---''"
  shows "split_first ''\<newline>---\<newline>'' (CHR ''\<newline>'' # m @ CHR ''\<newline>'' # y)
           = map_option (\<lambda>(a, b). (CHR ''\<newline>'' # a, b))
               (split_first ''\<newline>---\<newline>'' (m @ CHR ''\<newline>'' # y))"
proof -
  have "\<not> prefix ''---\<newline>'' (m @ CHR ''\<newline>'' # y)"
    using assms prefix_delimiter_line by blast
  then show ?thesis by (auto split: option.splits)
qed

lemma split_first_join_lines:
  "ls \<noteq> [] \<Longrightarrow> list_all is_line ls \<Longrightarrow> ''---'' \<notin> set (tl ls) \<Longrightarrow>
     split_first ''\<newline>---\<newline>'' (join ''\<newline>'' ls @ ''\<newline>---\<newline>'' @ d)
       = Some (join ''\<newline>'' ls, d)"
proof (induction "''\<newline>''" ls rule: join.induct)
  case 1
  then show ?case by simp
next
  case (2 x)
  then show ?case by (simp add: split_first_skip_line)
next
  case (3 x y ys)
  have y: "is_line y" "y \<noteq> ''---''" and x: "is_line x"
    using "3.prems" by auto
  obtain r where r: "join ''\<newline>'' (y # ys) @ ''\<newline>---\<newline>'' @ d = y @ CHR ''\<newline>'' # r"
    by (cases ys) auto
  have ih: "split_first ''\<newline>---\<newline>'' (join ''\<newline>'' (y # ys) @ ''\<newline>---\<newline>'' @ d)
              = Some (join ''\<newline>'' (y # ys), d)"
  proof (rule "3.hyps")
    show "y # ys \<noteq> []" by simp
    show "list_all is_line (y # ys)" using "3.prems" by simp
    show "''---'' \<notin> set (tl (y # ys))" using "3.prems" by simp
  qed
  have "split_first ''\<newline>---\<newline>''
          (join ''\<newline>'' (x # y # ys) @ ''\<newline>---\<newline>'' @ d)
        = map_option (\<lambda>(a, b). (x @ a, b))
            (split_first ''\<newline>---\<newline>''
               (CHR ''\<newline>'' # (join ''\<newline>'' (y # ys) @ ''\<newline>---\<newline>'' @ d)))"
    using split_first_skip_line [OF x] by simp
  also have "\<dots> = map_option (\<lambda>(a, b). (x @ a, b))
            (map_option (\<lambda>(a, b). (CHR ''\<newline>'' # a, b))
               (split_first ''\<newline>---\<newline>''
                  (join ''\<newline>'' (y # ys) @ ''\<newline>---\<newline>'' @ d)))"
    unfolding r using split_first_at_line_break [OF y] by simp
  also have "\<dots> = Some (join ''\<newline>'' (x # y # ys), d)"
    unfolding ih by simp
  finally show ?case .
qed


lemma dropWhile_rev_last: "s \<noteq> [] \<Longrightarrow> \<not> P (last s) \<Longrightarrow> dropWhile P (rev s) = rev s"
  by (cases s rule: rev_cases) auto

lemma trim_plain: "s \<noteq> [] \<Longrightarrow> \<not> is_ws (hd s) \<Longrightarrow> \<not> is_ws (last s) \<Longrightarrow> trim s = s"
proof -
  assume s: "s \<noteq> []" "\<not> is_ws (hd s)" "\<not> is_ws (last s)"
  then have "dropWhile is_ws s = s" by (cases s) auto
  then show ?thesis using s dropWhile_rev_last [of s is_ws] by (simp add: trim_def)
qed

lemma good_tag_ends: "good_tag t \<Longrightarrow> t \<noteq> [] \<and> \<not> is_ws (hd t) \<and> \<not> is_ws (last t)"
  using is_tag_char_plain by (auto simp: good_tag_def list_all_iff)

lemma trim_tag_item: "good_tag t \<Longrightarrow> trim (tag_item t) = ''- '' @ t"
proof -
  assume t: "good_tag t"
  have "dropWhile is_ws (tag_item t) = ''- '' @ t"
    by (simp add: tag_item_def is_ws_def)
  moreover have "dropWhile is_ws (rev (''- '' @ t)) = rev (''- '' @ t)"
    using good_tag_ends [OF t] by (intro dropWhile_rev_last) simp_all
  ultimately show ?thesis by (simp add: trim_def)
qed

lemma trim_space_tag: "good_tag t \<Longrightarrow> trim (CHR '' '' # t) = t"
proof -
  assume t: "good_tag t"
  have "dropWhile is_ws (CHR '' '' # t) = t"
    using good_tag_ends [OF t] by (cases t) (auto simp: is_ws_def)
  then show ?thesis
    using good_tag_ends [OF t] dropWhile_rev_last [of t is_ws] by (simp add: trim_def)
qed

lemma getExistingTags_loop_items:
  "list_all good_tag tags \<Longrightarrow> getExistingTags_loop (map tag_item tags) True acc = acc @ tags"
proof (induction tags arbitrary: acc)
  case Nil
  then show ?case by simp
next
  case (Cons t tags)
  then have t: "good_tag t" by simp
  have "getExistingTags_loop (tag_item t # map tag_item tags) True acc
          = getExistingTags_loop (map tag_item tags) True (acc @ [t])"
    using t good_tag_ends [OF t] by (simp add: trim_tag_item trim_space_tag Let_def)
  then show ?case using Cons by simp
qed

lemma trim_tags_key: "trim ''tags:'' = ''tags:''"
  by (simp add: trim_def is_ws_def)

lemma inline_match_tags_key: "inline_match ''tags:'' = None"
  by (simp add: inline_match_here_def)

lemma getExistingTags_generated:
  assumes "list_all good_tag tags"
  shows "getExistingTags (join ''\<newline>'' (''tags:'' # map tag_item tags)) = tags"
proof -
  have l: "list_all is_line (''tags:'' # map tag_item tags)"
    using assms is_tag_char_plain
    by (auto simp: list_all_iff is_line_def tag_item_def good_tag_def)
  have "join ''\<newline>'' (''tags:'' # map tag_item tags) \<noteq> []"
    by (cases tags) auto
  then have "getExistingTags (join ''\<newline>'' (''tags:'' # map tag_item tags))
               = getExistingTags_loop (''tags:'' # map tag_item tags) False []"
    using split_on_join [OF _ l] by (simp add: getExistingTags_def)
  also have "\<dots> = getExistingTags_loop (map tag_item tags) True []"
    by (simp add: trim_tags_key inline_match_tags_key del: inline_match.simps)
  also have "\<dots> = tags"
    using getExistingTags_loop_items [OF assms, of "[]"] by simp
  finally show ?thesis .
qed


lemma join_Cons_concat: "join sep (x # xs) = x @ concat (map (\<lambda>l. sep @ l) xs)"
  by (induction xs arbitrary: x) auto

lemma generated_block_text:
  "tags \<noteq> [] \<Longrightarrow>
     ''tags:\<newline>'' @ join ''\<newline>'' (map tag_item tags) = join ''\<newline>'' (''tags:'' # map tag_item tags)"
  by (cases tags) auto

lemma generated_block_no_hash:
  "list_all good_tag tags \<Longrightarrow> CHR ''#'' \<notin> set (join ''\<newline>'' (''tags:'' # map tag_item tags))"
  using is_tag_char_plain
  by (auto simp: join_Cons_concat tag_item_def good_tag_def list_all_iff)

lemma sort_sort: "sort (sort xs) = sort (xs :: string list)"
  by (simp add: sorted_sort_id)

lemma sync_again_on_generated_block:
  assumes tags: "tags = sort (extractInlineTags lc d)" and ne: "tags \<noteq> []"
    and out: "out = ''---\<newline>'' @ (''tags:\<newline>'' @ join ''\<newline>'' (map tag_item tags) @ ''\<newline>'')
                      @ ''---\<newline>'' @ d"
  shows "syncTagsToFrontmatter lc out = None"
proof -
  let ?ls = "''tags:'' # map tag_item tags"
  define T where "T = join ''\<newline>'' ?ls"
  have good: "list_all good_tag tags"
    using extractInlineTags_good [of lc d] by (simp add: tags list_all_iff)
  have lines: "list_all is_line ?ls"
    using good is_tag_char_plain
    by (auto simp: list_all_iff is_line_def tag_item_def good_tag_def)
  have nodelim: "''---'' \<notin> set (tl ?ls)"
    by (auto simp: tag_item_def)
  have o: "out = ''---\<newline>'' @ T @ ''\<newline>---\<newline>'' @ d"
    using generated_block_text [OF ne] by (simp add: out T_def)
  have "split_first ''\<newline>---\<newline>'' (T @ ''\<newline>---\<newline>'' @ d) = Some (T, d)"
    unfolding T_def using lines nodelim by (intro split_first_join_lines) simp_all
  then have p: "parseFrontmatter out = \<lparr>frontmatterText = T, bodyText = d, hasFrontmatter = True\<rparr>"
    by (simp add: o parseFrontmatter_def)
  have e: "getExistingTags T = tags"
    unfolding T_def using good by (rule getExistingTags_generated)
  have "extractInlineTags_loop lc out [] = extractInlineTags_loop lc T [] @ extractInlineTags_loop lc d []"
    unfolding o by (rule extract_loop_document)
  moreover have "extractInlineTags_loop lc T [] = []"
    unfolding T_def using generated_block_no_hash [OF good] by (rule extract_loop_no_hash)
  ultimately have i: "extractInlineTags lc out = extractInlineTags lc d"
    by (simp add: extractInlineTags_def)
  show ?thesis
    using sync_None_iff [of lc out] p e i by (simp add: tags sort_sort)
qed

subsection \<open>A second application on a written tag list\<close>

text \<open>On a document without a block, and on a document whose block is a tag list as the
  rebuild writes it, the second application returns NO_CHANGE.\<close>

lemma sync_twice_without_block:
  assumes "\<not> hasFrontmatter (parseFrontmatter d)"
    and "syncTagsToFrontmatter lc d = Some out"
  shows "syncTagsToFrontmatter lc out = None"
proof -
  have ne: "extractInlineTags lc d \<noteq> []"
    using assms by (auto simp: syncTagsToFrontmatter_def Let_def split: if_splits)
  then have ne': "sort (extractInlineTags lc d) \<noteq> []"
    by (simp add: sort_eq_Nil_iff)
  have "out = ''---\<newline>'' @ buildFrontmatterWithTags (frontmatterText (parseFrontmatter d))
                   (sort (extractInlineTags lc d)) False @ ''---\<newline>'' @ d"
    using assms ne by (auto simp: syncTagsToFrontmatter_def Let_def split: if_splits)
  then have "out = ''---\<newline>'' @ (''tags:\<newline>''
                     @ join ''\<newline>'' (map tag_item (sort (extractInlineTags lc d))) @ ''\<newline>'')
                   @ ''---\<newline>'' @ d"
    by (simp add: buildFrontmatterWithTags_def)
  with ne' show ?thesis
    by (intro sync_again_on_generated_block [of "sort (extractInlineTags lc d)" lc d out]) simp_all
qed

lemma generated_block_lines:
  "list_all good_tag ts \<Longrightarrow> list_all is_line (''tags:'' # map tag_item ts)"
  using is_tag_char_plain
  by (auto simp: list_all_iff is_line_def tag_item_def good_tag_def)

lemma buildFrontmatterWithTags_loop_old_items:
  "list_all good_tag ts \<Longrightarrow>
     buildFrontmatterWithTags_loop tags (map tag_item ts) True True acc = (acc, True)"
proof (induction ts)
  case Nil
  then show ?case by simp
next
  case (Cons t ts)
  then have t: "good_tag t" by simp
  have "buildFrontmatterWithTags_loop tags (tag_item t # map tag_item ts) True True acc
          = buildFrontmatterWithTags_loop tags (map tag_item ts) True True acc"
    by (simp add: trim_tag_item [OF t])
  then show ?case using Cons by simp
qed

lemma buildFrontmatterWithTags_written_block:
  assumes "list_all good_tag ts"
  shows "buildFrontmatterWithTags (join ''\<newline>'' (''tags:'' # map tag_item ts)) tags True
           = join ''\<newline>'' (''tags:'' # map tag_item tags) @ ''\<newline>''"
proof -
  let ?fm = "join ''\<newline>'' (''tags:'' # map tag_item ts)"
  have ne: "?fm \<noteq> []"
    by (cases ts) auto
  have s: "split_on CHR ''\<newline>'' ?fm = ''tags:'' # map tag_item ts"
    using generated_block_lines [OF assms] by (intro split_on_join) simp_all
  have "buildFrontmatterWithTags_loop tags (''tags:'' # map tag_item ts) False False []
          = buildFrontmatterWithTags_loop tags (map tag_item ts) True True
              (''tags:'' # map tag_item tags)"
    by (simp add: trim_tags_key)
  then have "buildFrontmatterWithTags_loop tags (split_on CHR ''\<newline>'' ?fm) False False []
               = (''tags:'' # map tag_item tags, True)"
    using buildFrontmatterWithTags_loop_old_items [OF assms] s by simp
  then show ?thesis
    using ne by (simp add: buildFrontmatterWithTags_def)
qed

lemma sync_twice_on_written_block:
  assumes has: "hasFrontmatter (parseFrontmatter d)"
    and fm: "frontmatterText (parseFrontmatter d) = join ''\<newline>'' (''tags:'' # map tag_item ts)"
    and good: "list_all good_tag ts"
    and ne: "extractInlineTags lc d \<noteq> []"
    and out: "syncTagsToFrontmatter lc d = Some out"
  shows "syncTagsToFrontmatter lc out = None"
proof -
  define body where "body = bodyText (parseFrontmatter d)"
  define tags where "tags = sort (extractInlineTags lc d)"
  have d: "d = ''---\<newline>'' @ join ''\<newline>'' (''tags:'' # map tag_item ts) @ ''\<newline>---\<newline>'' @ body"
    using parse_has_frontmatter [OF has] by (simp add: fm body_def)
  have "extractInlineTags_loop lc d []
          = extractInlineTags_loop lc (join ''\<newline>'' (''tags:'' # map tag_item ts)) []
            @ extractInlineTags_loop lc body []"
    unfolding d by (rule extract_loop_document)
  moreover have "extractInlineTags_loop lc (join ''\<newline>'' (''tags:'' # map tag_item ts)) [] = []"
    using generated_block_no_hash [OF good] by (rule extract_loop_no_hash)
  ultimately have e: "extractInlineTags lc d = extractInlineTags lc body"
    by (simp add: extractInlineTags_def)
  have t: "tags = sort (extractInlineTags lc body)"
    by (simp add: tags_def e)
  have tne: "tags \<noteq> []"
    using ne by (simp add: tags_def sort_eq_Nil_iff)
  have "out = ''---\<newline>'' @ buildFrontmatterWithTags (frontmatterText (parseFrontmatter d)) tags True
                @ ''---\<newline>'' @ body"
    using out ne has by (auto simp: syncTagsToFrontmatter_def Let_def tags_def body_def split: if_splits)
  then have "out = ''---\<newline>'' @ (''tags:\<newline>'' @ join ''\<newline>'' (map tag_item tags) @ ''\<newline>'')
                     @ ''---\<newline>'' @ body"
    using buildFrontmatterWithTags_written_block [OF good, of tags] generated_block_text [OF tne]
    by (simp add: fm)
  with t tne show ?thesis
    by (rule sync_again_on_generated_block)
qed

section \<open>The claims\<close>

text \<open>
  C2, as the code has it: the recorded tags are sorted but not deduplicated before the
  comparison. \<open>syncTagsToFrontmatter\<close> returns NO_CHANGE exactly when the sorted sequence of
  the tags read from the metadata block, duplicates kept, equals the sorted sequence of the
  extracted (deduplicated) inline tags, compared as literal strings.
\<close>

theorem sync_no_change_iff:
  "syncTagsToFrontmatter lc d = None \<longleftrightarrow>
     sort (getExistingTags (frontmatterText (parseFrontmatter d)))
       = sort (extractInlineTags lc d)"
  by (rule sync_None_iff)

text \<open>
  C2 as stated fails: a block that records the tag \<open>a\<close> twice over a body with \<open>#a\<close> has
  equal sorted deduplicated sequences, and the document is rewritten all the same.
\<close>

theorem sync_dedupe_counterexample:
  "sort (dedupe (getExistingTags (frontmatterText (parseFrontmatter
       ''---\<newline>tags:\<newline>  - a\<newline>  - a\<newline>---\<newline>#a''))))
     = sort (extractInlineTags True
       ''---\<newline>tags:\<newline>  - a\<newline>  - a\<newline>---\<newline>#a'')
   \<and> syncTagsToFrontmatter True
       ''---\<newline>tags:\<newline>  - a\<newline>  - a\<newline>---\<newline>#a''
     = Some ''---\<newline>tags:\<newline>  - a\<newline>---\<newline>#a''"
  by code_simp

text \<open>
  C6: whenever \<open>syncTagsToFrontmatter\<close> produces a new document, the body text of the
  original document (the whole document when it had no block) is the final segment of the
  new document, character for character.
\<close>

theorem sync_body_suffix:
  "syncTagsToFrontmatter lc d = Some out \<Longrightarrow>
     suffix (bodyText (parseFrontmatter d)) out"
  using parse_no_frontmatter [of d]
  by (auto simp: syncTagsToFrontmatter_def Let_def suffix_def split: if_splits)

theorem sync_body_suffix_witness:
  "syncTagsToFrontmatter True ''#a'' = Some ''---\<newline>tags:\<newline>  - a\<newline>---\<newline>#a''
   \<and> suffix (bodyText (parseFrontmatter ''#a''))
         ''---\<newline>tags:\<newline>  - a\<newline>---\<newline>#a''"
proof -
  have h: "syncTagsToFrontmatter True ''#a''
             = Some ''---\<newline>tags:\<newline>  - a\<newline>---\<newline>#a''"
    by code_simp
  show ?thesis using h sync_body_suffix [OF h] by simp
qed

text \<open>
  C9: from \<open>#Tag #tag #TAG\<close> the extractor yields the single tag \<open>tag\<close> with the lowercase
  flag and the three tags \<open>Tag\<close>, \<open>tag\<close>, \<open>TAG\<close> without it; with the flag, the result is
  the deduplication of the case-folded candidates, so duplicates are decided after
  normalization, and the result never holds a tag twice.
\<close>

theorem extract_dedup_normalization:
  "extractInlineTags True ''#Tag #tag #TAG'' = [''tag'']
   \<and> extractInlineTags False ''#Tag #tag #TAG'' = [''Tag'', ''tag'', ''TAG'']
   \<and> extractInlineTags True s = dedupe (map toLowerCase (extractInlineTags_loop False s []))
   \<and> extractInlineTags True s = dedupe (map toLowerCase (extractInlineTags False s))
   \<and> distinct (extractInlineTags lc s)"
proof -
  have a: "extractInlineTags True ''#Tag #tag #TAG'' = [''tag'']"
    by code_simp
  have b: "extractInlineTags False ''#Tag #tag #TAG'' = [''Tag'', ''tag'', ''TAG'']"
    by code_simp
  have c: "extractInlineTags True s = dedupe (map toLowerCase (extractInlineTags_loop False s []))"
    by (simp add: extractInlineTags_def extract_loop_lower)
  have d: "extractInlineTags True s = dedupe (map toLowerCase (extractInlineTags False s))"
    by (simp add: extractInlineTags_def extract_loop_lower dedupe_map_dedupe)
  have e: "distinct (extractInlineTags lc s)"
    by (simp add: extractInlineTags_def distinct_dedupe)
  from a b c d e show ?thesis by blast
qed

text \<open>
  C5, as the code has it: the pattern asks for a line break before the closing delimiter
  that is not the one ending the opening delimiter, so at least one line, possibly empty,
  stands between the two. A document has a block exactly when it is a delimiter line, one
  or more lines and a delimiter line, followed by the body; the metadata text is then the
  shortest text that fits, and everything after the closing delimiter line is the body.
  Otherwise there is no block, the body is the whole document and the metadata text is
  empty.
\<close>

theorem parse_block_iff:
  "(hasFrontmatter (parseFrontmatter d)
      \<longleftrightarrow> (\<exists>ls body. ls \<noteq> [] \<and> list_all is_line ls \<and> d = block_document ls body))
   \<and> (hasFrontmatter (parseFrontmatter d) \<longrightarrow>
        d = ''---\<newline>'' @ frontmatterText (parseFrontmatter d) @ ''\<newline>---\<newline>''
              @ bodyText (parseFrontmatter d)
        \<and> (\<forall>m b. d = ''---\<newline>'' @ m @ ''\<newline>---\<newline>'' @ b
              \<longrightarrow> length (frontmatterText (parseFrontmatter d)) \<le> length m))
   \<and> (\<not> hasFrontmatter (parseFrontmatter d) \<longrightarrow>
        bodyText (parseFrontmatter d) = d \<and> frontmatterText (parseFrontmatter d) = [])"
proof (intro conjI impI allI)
  show "hasFrontmatter (parseFrontmatter d)
      \<longleftrightarrow> (\<exists>ls body. ls \<noteq> [] \<and> list_all is_line ls \<and> d = block_document ls body)"
  proof
    assume h: "hasFrontmatter (parseFrontmatter d)"
    let ?ls = "split_on CHR ''\<newline>'' (frontmatterText (parseFrontmatter d))"
    have "d = block_document ?ls (bodyText (parseFrontmatter d))"
      using parse_has_frontmatter [OF h] join_split_on [of "CHR ''\<newline>''"]
      by (simp add: block_document_pattern split_on_not_Nil)
    moreover have "list_all is_line ?ls"
      using split_on_lines [of "CHR ''\<newline>''"] by (simp add: is_line_def [abs_def])
    ultimately show "\<exists>ls body. ls \<noteq> [] \<and> list_all is_line ls \<and> d = block_document ls body"
      using split_on_not_Nil by blast
  next
    assume "\<exists>ls body. ls \<noteq> [] \<and> list_all is_line ls \<and> d = block_document ls body"
    then obtain ls body where "ls \<noteq> []" "d = block_document ls body" by blast
    then show "hasFrontmatter (parseFrontmatter d)"
      using parse_pattern [of d "join ''\<newline>'' ls" body] by (simp add: block_document_pattern)
  qed
next
  assume "hasFrontmatter (parseFrontmatter d)"
  then show "d = ''---\<newline>'' @ frontmatterText (parseFrontmatter d) @ ''\<newline>---\<newline>''
              @ bodyText (parseFrontmatter d)"
    by (rule parse_has_frontmatter)
next
  fix m b
  assume "d = ''---\<newline>'' @ m @ ''\<newline>---\<newline>'' @ b"
  then show "length (frontmatterText (parseFrontmatter d)) \<le> length m"
    using parse_pattern by blast
next
  assume "\<not> hasFrontmatter (parseFrontmatter d)"
  then show "bodyText (parseFrontmatter d) = d"
    using parse_no_frontmatter by blast
next
  assume "\<not> hasFrontmatter (parseFrontmatter d)"
  then show "frontmatterText (parseFrontmatter d) = []"
    using parse_no_frontmatter by blast
qed

text \<open>The witness of C5: a document with a one-line block, and a document whose block is
  never closed.\<close>

theorem parse_block_iff_witness:
  "hasFrontmatter (parseFrontmatter ''---\<newline>title: x\<newline>---\<newline>body'')
   \<and> ''---\<newline>title: x\<newline>---\<newline>body'' = block_document [''title: x''] ''body''
   \<and> frontmatterText (parseFrontmatter ''---\<newline>title: x\<newline>---\<newline>body'') = ''title: x''
   \<and> bodyText (parseFrontmatter ''---\<newline>title: x\<newline>---\<newline>body'') = ''body''
   \<and> \<not> hasFrontmatter (parseFrontmatter ''---\<newline>title: x'')
   \<and> bodyText (parseFrontmatter ''---\<newline>title: x'') = ''---\<newline>title: x''
   \<and> frontmatterText (parseFrontmatter ''---\<newline>title: x'') = []"
proof -
  have a: "hasFrontmatter (parseFrontmatter ''---\<newline>title: x\<newline>---\<newline>body'')"
    by code_simp
  have b: "\<not> hasFrontmatter (parseFrontmatter ''---\<newline>title: x'')"
    by code_simp
  have c: "''---\<newline>title: x\<newline>---\<newline>body'' = block_document [''title: x''] ''body''"
    by (simp add: block_document_def)
  have d: "frontmatterText (parseFrontmatter ''---\<newline>title: x\<newline>---\<newline>body'') = ''title: x''"
    "bodyText (parseFrontmatter ''---\<newline>title: x\<newline>---\<newline>body'') = ''body''"
    by code_simp+
  show ?thesis
    using a b c d parse_block_iff [of "''---\<newline>title: x''"]
      parse_block_iff [of "''---\<newline>title: x\<newline>---\<newline>body''"]
    by simp
qed

text \<open>
  C5 as stated fails: a document that starts with two adjacent delimiter lines, no line
  between them, has no block.
\<close>

theorem parse_adjacent_delimiters_counterexample:
  "block_document [] ''body'' = ''---\<newline>---\<newline>body''
   \<and> parseFrontmatter (block_document [] ''body'')
       = \<lparr>frontmatterText = [], bodyText = ''---\<newline>---\<newline>body'', hasFrontmatter = False\<rparr>"
  by code_simp

text \<open>
  C8, as the code has it: a blank line inside the tag section is dropped with the section.
  Where no field line is indented, the remover returns the lines of \<open>remove_spec\<close>,
  which are lines of the input in their original order.
\<close>

theorem removeTags_refines_remove_spec:
  "margin_fields (split_on CHR ''\<newline>'' fm) \<Longrightarrow>
     removeTags fm = join ''\<newline>'' (remove_spec (split_on CHR ''\<newline>'' fm))
     \<and> subseq (remove_spec (split_on CHR ''\<newline>'' fm)) (split_on CHR ''\<newline>'' fm)"
  using removeTags_loop_spec [of "split_on CHR ''\<newline>'' fm"] remove_spec_subseq
  by (simp add: removeTags_def)

theorem removeTags_refines_remove_spec_witness:
  "margin_fields (split_on CHR ''\<newline>'' ''a: b\<newline>tags:\<newline>  - a\<newline>\<newline>title: x'')
   \<and> removeTags ''a: b\<newline>tags:\<newline>  - a\<newline>\<newline>title: x''
       = join ''\<newline>'' (remove_spec (split_on CHR ''\<newline>'' ''a: b\<newline>tags:\<newline>  - a\<newline>\<newline>title: x''))
   \<and> remove_spec (split_on CHR ''\<newline>'' ''a: b\<newline>tags:\<newline>  - a\<newline>\<newline>title: x'')
       = [''a: b'', ''title: x'']"
proof -
  have h: "margin_fields (split_on CHR ''\<newline>'' ''a: b\<newline>tags:\<newline>  - a\<newline>\<newline>title: x'')"
    by code_simp
  have r: "remove_spec (split_on CHR ''\<newline>'' ''a: b\<newline>tags:\<newline>  - a\<newline>\<newline>title: x'')
       = [''a: b'', ''title: x'']"
    by code_simp
  show ?thesis
    using h r removeTags_refines_remove_spec [OF h] by simp
qed

text \<open>
  C8 as stated fails: the blank lines between the list items and before the next field
  do not pass through; the blank line after the section does.
\<close>

theorem removeTags_blank_line_counterexample:
  "removeTags ''tags:\<newline>  - a\<newline>\<newline>  - b\<newline>\<newline>title: x\<newline>\<newline>y: z''
     = ''title: x\<newline>\<newline>y: z''"
  by code_simp

text \<open>
  C7, at an input where the code departs from it: after the tag key and one item, the
  indented line \<open>note\<close> ends the section, so the item after it is not read. The test
  for indentation is made on the trimmed line, which never starts with a space.
\<close>

theorem getExistingTags_indented_line_ends_section:
  "getExistingTags ''tags:\<newline>  - a\<newline>  note\<newline>  - b'' = [''a'']"
  by code_simp

text \<open>
  C4, at an input where the code departs from it: on removal of the tag list the remaining
  metadata text is written without a final line break, so the field line \<open>title: x\<close> and
  the closing delimiter become one line and the new document has no metadata block.
\<close>

theorem sync_removal_joins_field_and_delimiter:
  "syncTagsToFrontmatter True ''---\<newline>tags:\<newline>  - a\<newline>title: x\<newline>---\<newline>body''
     = Some ''---\<newline>title: x---\<newline>body''
   \<and> parseFrontmatter ''---\<newline>title: x---\<newline>body''
     = \<lparr>frontmatterText = [], bodyText = ''---\<newline>title: x---\<newline>body'',
        hasFrontmatter = False\<rparr>"
  by code_simp

text \<open>
  C3, as the code has it: the comparison of step 4 comes first, so a block whose tag list
  records no tag is left alone. For every document whose metadata block holds only a tag
  list with at least one recorded tag, and whose text yields no inline tag,
  \<open>syncTagsToFrontmatter\<close> returns the body alone: the block and both delimiter lines are
  gone.
\<close>

theorem sync_drops_tag_only_block:
  assumes "hasFrontmatter (parseFrontmatter d)"
    and "only_tag_list (split_on CHR ''\<newline>'' (frontmatterText (parseFrontmatter d)))"
    and "getExistingTags (frontmatterText (parseFrontmatter d)) \<noteq> []"
    and "extractInlineTags lc d = []"
  shows "syncTagsToFrontmatter lc d = Some (bodyText (parseFrontmatter d))"
proof -
  have "sort (getExistingTags (frontmatterText (parseFrontmatter d))) \<noteq> []"
    using assms(3) by (simp add: sort_eq_Nil_iff)
  then show ?thesis
    using assms(1,4) removeTags_only_tag_list [OF assms(2)]
    by (simp add: syncTagsToFrontmatter_def Let_def arraysEqual_iff)
qed

theorem sync_drops_tag_only_block_witness:
  "hasFrontmatter (parseFrontmatter ''---\<newline>tags:\<newline>  - a\<newline>  - b\<newline>---\<newline>some text'')
   \<and> only_tag_list (split_on CHR ''\<newline>''
        (frontmatterText (parseFrontmatter ''---\<newline>tags:\<newline>  - a\<newline>  - b\<newline>---\<newline>some text'')))
   \<and> getExistingTags
        (frontmatterText (parseFrontmatter ''---\<newline>tags:\<newline>  - a\<newline>  - b\<newline>---\<newline>some text''))
       = [''a'', ''b'']
   \<and> extractInlineTags True ''---\<newline>tags:\<newline>  - a\<newline>  - b\<newline>---\<newline>some text'' = []
   \<and> syncTagsToFrontmatter True ''---\<newline>tags:\<newline>  - a\<newline>  - b\<newline>---\<newline>some text''
       = Some ''some text''"
proof -
  let ?d = "''---\<newline>tags:\<newline>  - a\<newline>  - b\<newline>---\<newline>some text''"
  have p: "parseFrontmatter ?d
             = \<lparr>frontmatterText = ''tags:\<newline>  - a\<newline>  - b'', bodyText = ''some text'',
                hasFrontmatter = True\<rparr>"
    by code_simp
  have a: "hasFrontmatter (parseFrontmatter ?d)"
    by (simp add: p)
  have b: "only_tag_list (split_on CHR ''\<newline>'' (frontmatterText (parseFrontmatter ?d)))"
    unfolding p by code_simp
  have c: "getExistingTags (frontmatterText (parseFrontmatter ?d)) = [''a'', ''b'']"
    unfolding p by code_simp
  have c': "getExistingTags (frontmatterText (parseFrontmatter ?d)) \<noteq> []"
    by (simp add: c)
  have e: "extractInlineTags True ?d = []"
    by code_simp
  show ?thesis
    using a b c e sync_drops_tag_only_block [OF a b c' e] by (simp add: p)
qed

text \<open>
  C3 as stated fails: a block that holds only the tag-key line, over a body without
  inline tags, gives NO_CHANGE, not the body.
\<close>

theorem sync_empty_tag_list_counterexample:
  "hasFrontmatter (parseFrontmatter ''---\<newline>tags:\<newline>---\<newline>body'')
   \<and> only_tag_list (split_on CHR ''\<newline>''
        (frontmatterText (parseFrontmatter ''---\<newline>tags:\<newline>---\<newline>body'')))
   \<and> extractInlineTags True ''---\<newline>tags:\<newline>---\<newline>body'' = []
   \<and> syncTagsToFrontmatter True ''---\<newline>tags:\<newline>---\<newline>body'' = None"
  by code_simp

text \<open>
  C10: extraction runs over the whole document. For a document with a metadata block the
  inline tags are the matches inside the metadata text followed by the matches inside the
  body, deduplicated; these are the tags compared with the recorded ones, and whenever
  \<open>syncTagsToFrontmatter\<close> writes a new document, every tag found inside the metadata
  text is an item line of the rewritten tag list.
\<close>

theorem sync_reads_tags_in_frontmatter:
  assumes "hasFrontmatter (parseFrontmatter d)"
  shows "extractInlineTags lc d
           = dedupe (extractInlineTags_loop lc (frontmatterText (parseFrontmatter d)) []
                     @ extractInlineTags_loop lc (bodyText (parseFrontmatter d)) [])
         \<and> (syncTagsToFrontmatter lc d = None \<longleftrightarrow>
              sort (getExistingTags (frontmatterText (parseFrontmatter d)))
                = sort (dedupe (extractInlineTags_loop lc (frontmatterText (parseFrontmatter d)) []
                     @ extractInlineTags_loop lc (bodyText (parseFrontmatter d)) [])))
         \<and> (\<forall>t out. t \<in> set (extractInlineTags lc (frontmatterText (parseFrontmatter d)))
                \<and> syncTagsToFrontmatter lc d = Some out
              \<longrightarrow> t \<in> set (extractInlineTags lc d)
                  \<and> sublist (''\<newline>'' @ tag_item t @ ''\<newline>'') out)"
proof -
  let ?fm = "frontmatterText (parseFrontmatter d)" and ?body = "bodyText (parseFrontmatter d)"
  define fm where "fm = ?fm"
  define body where "body = ?body"
  have d: "d = ''---\<newline>'' @ fm @ ''\<newline>---\<newline>'' @ body"
    unfolding fm_def body_def using assms by (rule parse_has_frontmatter)
  have "extractInlineTags_loop lc d []
          = extractInlineTags_loop lc fm [] @ extractInlineTags_loop lc body []"
    unfolding d by (rule extract_loop_document)
  then have a: "extractInlineTags lc d
           = dedupe (extractInlineTags_loop lc ?fm [] @ extractInlineTags_loop lc ?body [])"
    by (simp add: extractInlineTags_def fm_def body_def)
  have b: "syncTagsToFrontmatter lc d = None \<longleftrightarrow>
              sort (getExistingTags ?fm)
                = sort (dedupe (extractInlineTags_loop lc ?fm [] @ extractInlineTags_loop lc ?body []))"
    using sync_None_iff [of lc d] a by simp
  have c: "t \<in> set (extractInlineTags lc d) \<and> sublist (''\<newline>'' @ tag_item t @ ''\<newline>'') out"
    if t: "t \<in> set (extractInlineTags lc ?fm)" and out: "syncTagsToFrontmatter lc d = Some out"
    for t out
  proof -
    have t': "t \<in> set (extractInlineTags lc d)"
      using t a by (simp add: extractInlineTags_def set_dedupe)
    then have ne: "extractInlineTags lc d \<noteq> []" by auto
    have fm: "?fm \<noteq> []"
      using t by (auto simp: extractInlineTags_def dedupe_def)
    have "out = ''---\<newline>'' @ buildFrontmatterWithTags ?fm (sort (extractInlineTags lc d)) True
                  @ ''---\<newline>'' @ ?body"
      using out ne assms by (auto simp: syncTagsToFrontmatter_def Let_def split: if_splits)
    moreover have "sublist (''\<newline>'' @ tag_item t @ ''\<newline>'')
                     (buildFrontmatterWithTags ?fm (sort (extractInlineTags lc d)) True)"
      using t' fm by (intro buildFrontmatterWithTags_item) simp_all
    ultimately show ?thesis using t' sublist_in_middle by blast
  qed
  from a b c show ?thesis by blast
qed

theorem sync_reads_tags_in_frontmatter_witness:
  "hasFrontmatter (parseFrontmatter ''---\<newline>title: #foo\<newline>---\<newline>text'')
   \<and> extractInlineTags True (frontmatterText (parseFrontmatter ''---\<newline>title: #foo\<newline>---\<newline>text''))
       = [''foo'']
   \<and> syncTagsToFrontmatter True ''---\<newline>title: #foo\<newline>---\<newline>text''
       = Some ''---\<newline>tags:\<newline>  - foo\<newline>title: #foo\<newline>---\<newline>text''
   \<and> ''foo'' \<in> set (extractInlineTags True ''---\<newline>title: #foo\<newline>---\<newline>text'')
   \<and> sublist (''\<newline>'' @ tag_item ''foo'' @ ''\<newline>'')
        ''---\<newline>tags:\<newline>  - foo\<newline>title: #foo\<newline>---\<newline>text''"
proof -
  let ?d = "''---\<newline>title: #foo\<newline>---\<newline>text''"
  have h: "hasFrontmatter (parseFrontmatter ?d)"
    by code_simp
  have e: "extractInlineTags True (frontmatterText (parseFrontmatter ?d)) = [''foo'']"
    by code_simp
  have s: "syncTagsToFrontmatter True ?d
             = Some ''---\<newline>tags:\<newline>  - foo\<newline>title: #foo\<newline>---\<newline>text''"
    by code_simp
  have x: "''foo'' \<in> set (extractInlineTags True (frontmatterText (parseFrontmatter ?d)))"
    by (simp add: e)
  from sync_reads_tags_in_frontmatter [OF h, of True] x s
  have "''foo'' \<in> set (extractInlineTags True ?d)
        \<and> sublist (''\<newline>'' @ tag_item ''foo'' @ ''\<newline>'')
             ''---\<newline>tags:\<newline>  - foo\<newline>title: #foo\<newline>---\<newline>text''"
    by blast
  then show ?thesis
    using h e s by simp
qed

text \<open>
  C1, at an input where the code departs from it: in a block with two tag-key lines the
  rebuild writes the new tag list under each of them, so the written block records the tag
  twice. The reader then returns the tag twice against the one inline tag, and the second
  \<open>syncTagsToFrontmatter\<close>, with the same flag, writes the same document again
  where C1 asks for NO_CHANGE.
\<close>

theorem sync_twice_two_tag_keys:
  "syncTagsToFrontmatter True ''---\<newline>tags:\<newline>  - a\<newline>tags:\<newline>  - b\<newline>---\<newline>#c''
     = Some ''---\<newline>tags:\<newline>  - c\<newline>tags:\<newline>  - c\<newline>---\<newline>#c''
   \<and> getExistingTags (frontmatterText (parseFrontmatter
         ''---\<newline>tags:\<newline>  - c\<newline>tags:\<newline>  - c\<newline>---\<newline>#c''))
     = [''c'', ''c'']
   \<and> extractInlineTags True ''---\<newline>tags:\<newline>  - c\<newline>tags:\<newline>  - c\<newline>---\<newline>#c''
     = [''c'']
   \<and> syncTagsToFrontmatter True ''---\<newline>tags:\<newline>  - c\<newline>tags:\<newline>  - c\<newline>---\<newline>#c''
     = Some ''---\<newline>tags:\<newline>  - c\<newline>tags:\<newline>  - c\<newline>---\<newline>#c''"
  by code_simp

end
